theory Spec2Isabelle
  imports Main "HOL-Library.Word"
begin

section \<open>Shared vocabulary: machine integers, errors, structured logging\<close>

text \<open>
  Go's \<open>uint\<close> on a 64-bit platform; subtraction and comparison are the unsigned ones of
  the machine, so \<open>0 - 1\<close> is the largest value. The length of a Go string or slice is an
  \<open>int\<close>: it never exceeds \<open>maxInt\<close>.
\<close>

type_synonym uint = "64 word"

definition maxInt :: nat where
  "maxInt = 2 ^ 63 - 1"

text \<open>
  Errors are values. \<open>UnsupportedCacheType t\<close> is
  \<open>fmt.Errorf("unsupported cache type %q", t)\<close>; \<open>ExternalError m\<close> is an error handed back
  by code outside the two files (the socket, the mapper, the cache constructors).
\<close>

datatype error = UnsupportedCacheType string | ExternalError string

text \<open>A \<open>slog\<close> logger is the list of the records written to it, oldest first.\<close>

datatype level = LevelDebug | LevelInfo | LevelWarn | LevelError

datatype attr_value = NatV nat | UintV uint | StrV string | ErrV error

type_synonym log_record = "level \<times> string \<times> (string \<times> attr_value) list"

section \<open>pkg/relay/relay.go\<close>

text \<open>
  The socket: \<open>written\<close> holds every buffer handed to \<open>WriteToUDP\<close>, in order;
  \<open>write_errors k\<close> is what the call number \<open>k\<close> (from 0) returns as its error.
\<close>

record UDPConn =
  write_errors :: "nat \<Rightarrow> error option"
  written :: "string list"

text \<open>
  The \<open>Relay\<close> struct. \<open>bufferChannel\<close> holds the messages sent and not yet received,
  oldest first. The channel has room for 100 messages and a sender that finds it full
  waits: a send is recorded when it completes. The three counters are the children
  of the counter vectors for this relay's target; \<open>addr\<close>, the fixed destination of
  every write, is left out.
\<close>

record Relay =
  bufferChannel :: "string list"
  conn :: UDPConn
  logger :: "log_record list"
  packetLength :: uint
  packetsTotal :: nat
  longLinesTotal :: nat
  relayedLinesTotal :: nat

definition log_to :: "Relay \<Rightarrow> level \<Rightarrow> string \<Rightarrow> (string \<times> attr_value) list \<Rightarrow> Relay" where
  "log_to r lv msg attrs = r\<lparr>logger := logger r @ [(lv, msg, attrs)]\<rparr>"

text \<open>\<open>strings.HasSuffix\<close>.\<close>

definition HasSuffix :: "string \<Rightarrow> string \<Rightarrow> bool" where
  "HasSuffix s suffix =
     (length s \<ge> length suffix \<and> drop (length s - length suffix) s = suffix)"

definition newline :: string where
  "newline = [CHR 0x0A]"

text \<open>\<open>sendPacket\<close>: returns the relay after the call and the error.\<close>

definition sendPacket :: "Relay \<Rightarrow> string \<Rightarrow> Relay \<times> error option" where
  "sendPacket r buf =
     (if length buf = 0 then
        (log_to r LevelDebug ''Empty buffer, nothing to send'' [], None)
      else
        let r1 = log_to r LevelDebug ''Sending packet''
                   [(''length'', NatV (length buf)), (''data'', StrV buf)];
            err = write_errors (conn r1) (length (written (conn r1)));
            r2 = r1\<lparr>conn := (conn r1)\<lparr>written := written (conn r1) @ [buf]\<rparr>\<rparr>;
            r3 = r2\<lparr>packetsTotal := packetsTotal r2 + 1\<rparr>
        in (r3, err))"

text \<open>\<open>RelayLine\<close>.\<close>

definition RelayLine :: "Relay \<Rightarrow> string \<Rightarrow> Relay" where
  "RelayLine r l =
     (let lineLength = (of_nat (length l) :: uint) in
      if lineLength = 0 then
        log_to r LevelDebug ''Empty line, not relaying'' []
      else if lineLength > packetLength r - 1 then
        let r1 = log_to r LevelWarn ''line too long, not relaying''
                   [(''length'', UintV lineLength), (''max'', UintV (packetLength r))]
        in r1\<lparr>longLinesTotal := longLinesTotal r1 + 1\<rparr>
      else
        let r1 = log_to r LevelDebug ''Relaying line'' [(''line'', StrV l)];
            l' = (if \<not> HasSuffix l newline then l @ newline else l);
            r2 = r1\<lparr>relayedLinesTotal := relayedLinesTotal r1 + 1\<rparr>
        in r2\<lparr>bufferChannel := bufferChannel r2 @ [l']\<rparr>)"

text \<open>
  \<open>relayOutput\<close>: the goroutine's state is the relay it shares with \<open>RelayLine\<close>, its
  local \<open>buffer\<close>, and whether it has returned. Each round of the \<open>for\<close> loop takes one
  ready case of the \<open>select\<close>; the receive is ready only when the channel holds a message.
\<close>

datatype select_case = case_relayInterval | case_bufferChannel

record relayOutput_state =
  relay :: Relay
  buffer :: string
  returned :: bool

definition send_failed :: "relayOutput_state \<Rightarrow> Relay \<Rightarrow> error \<Rightarrow> relayOutput_state" where
  "send_failed s r e =
     s\<lparr>relay := log_to r LevelError ''Error sending UDP packet'' [(''error'', ErrV e)],
       returned := True\<rparr>"

definition relayOutput_iter :: "relayOutput_state \<Rightarrow> select_case \<Rightarrow> relayOutput_state" where
  "relayOutput_iter s c =
     (case c of
        case_relayInterval \<Rightarrow>
          (case sendPacket (relay s) (buffer s) of
             (r1, Some e) \<Rightarrow> send_failed s r1 e
           | (r1, None) \<Rightarrow> s\<lparr>relay := r1, buffer := []\<rparr>)
      | case_bufferChannel \<Rightarrow>
          (case bufferChannel (relay s) of
             [] \<Rightarrow> s
           | b # rest \<Rightarrow>
               let r0 = (relay s)\<lparr>bufferChannel := rest\<rparr> in
               if (of_nat (length b + length (buffer s)) :: uint) > packetLength r0 then
                 let r1 = log_to r0 LevelDebug ''Buffer full, sending packet''
                            [(''length'', NatV (length (buffer s)))]
                 in (case sendPacket r1 (buffer s) of
                       (r2, Some e) \<Rightarrow> send_failed s r2 e
                     | (r2, None) \<Rightarrow> s\<lparr>relay := r2, buffer := b\<rparr>)
               else
                 let r1 = log_to r0 LevelDebug ''Adding line to buffer'' [(''line'', StrV b)]
                 in s\<lparr>relay := r1, buffer := buffer s @ b\<rparr>))"

definition relayOutput_step :: "relayOutput_state \<Rightarrow> select_case \<Rightarrow> relayOutput_state" where
  "relayOutput_step s c = (if returned s then s else relayOutput_iter s c)"

fun relayOutput :: "relayOutput_state \<Rightarrow> select_case list \<Rightarrow> relayOutput_state" where
  "relayOutput s [] = s"
| "relayOutput s (c # cs) = relayOutput (relayOutput_step s c) cs"

text \<open>
  The relay as its callers see it: calls of \<open>RelayLine\<close> from the listeners interleaved
  with the rounds of the flush loop.
\<close>

datatype action = Call_RelayLine string | Select select_case

fun relay_action :: "relayOutput_state \<Rightarrow> action \<Rightarrow> relayOutput_state" where
  "relay_action s (Call_RelayLine l) = s\<lparr>relay := RelayLine (relay s) l\<rparr>"
| "relay_action s (Select c) = relayOutput_step s c"

fun relay_run :: "relayOutput_state \<Rightarrow> action list \<Rightarrow> relayOutput_state" where
  "relay_run s [] = s"
| "relay_run s (a # as) = relay_run (relay_action s a) as"

text \<open>
  The struct \<open>NewRelay\<close> builds once the target is resolved and the socket \<open>c\<close> is open:
  an empty channel, the given packet length, nothing logged or counted yet. The
  goroutine it starts has an empty \<open>buffer\<close>.
\<close>

definition new_Relay :: "UDPConn \<Rightarrow> uint \<Rightarrow> Relay" where
  "new_Relay c n =
     \<lparr>bufferChannel = [], conn = c, logger = [], packetLength = n,
      packetsTotal = 0, longLinesTotal = 0, relayedLinesTotal = 0\<rparr>"

definition new_relayOutput :: "UDPConn \<Rightarrow> uint \<Rightarrow> relayOutput_state" where
  "new_relayOutput c n = \<lparr>relay = new_Relay c n, buffer = [], returned = False\<rparr>"

text \<open>A socket on which every write succeeds, and one on which every write fails.\<close>

definition ok_conn :: UDPConn where
  "ok_conn = \<lparr>write_errors = (\<lambda>k. None), written = []\<rparr>"

definition broken_conn :: UDPConn where
  "broken_conn =
     \<lparr>write_errors = (\<lambda>k. Some (ExternalError ''network is unreachable'')), written = []\<rparr>"

section \<open>main.go\<close>

text \<open>
  The metrics of \<open>main.go\<close> live in the default registry. A counter child is named by
  its metric name and its label values; \<open>Inc\<close> adds one to it.
\<close>

type_synonym counters = "string \<times> string list \<Rightarrow> nat"

definition configLoads :: string where
  "configLoads = ''statsd_exporter_config_reloads_total''"

definition Inc :: "string \<Rightarrow> string list \<Rightarrow> counters \<Rightarrow> counters" where
  "Inc name lvs cs = cs((name, lvs) := cs (name, lvs) + 1)"

record 'm process =
  counters :: counters
  mapper :: 'm
  main_logger :: "log_record list"

text \<open>
  \<open>reloadConfig\<close>. \<open>mapper.InitFromFile\<close> belongs to another package: it is a parameter,
  free to change the whole process state (the mapper holds the registerer, a gauge
  and the logger) and to return an error.
\<close>

definition reloadConfig ::
  "(string \<Rightarrow> 'm process \<Rightarrow> 'm process \<times> error option) \<Rightarrow> string \<Rightarrow> 'm process \<Rightarrow> 'm process"
where
  "reloadConfig InitFromFile fileName s =
     (case InitFromFile fileName s of
        (s1, Some err) \<Rightarrow>
          s1\<lparr>main_logger := main_logger s1 @
                 [(LevelInfo, ''Error reloading config'', [(''error'', ErrV err)])],
             counters := Inc configLoads [''failure''] (counters s1)\<rparr>
      | (s1, None) \<Rightarrow>
          s1\<lparr>main_logger := main_logger s1 @
                 [(LevelInfo, ''Config reloaded successfully'', [])],
             counters := Inc configLoads [''success''] (counters s1)\<rparr>)"

text \<open>
  \<open>getCache\<close>. A \<open>mapper.MetricMapperCache\<close> interface value is \<open>None\<close> for \<open>nil\<close>, or the
  pointer it holds tagged with its dynamic type. The two constructors belong to other
  packages: they are parameters returning a pointer (possibly \<open>nil\<close>) and an error.
\<close>

datatype ('l, 'r) MetricMapperCache = LRUCache "'l option" | RRCache "'r option"

definition getCache ::
  "('reg \<Rightarrow> int \<Rightarrow> 'l option \<times> error option) \<Rightarrow> ('reg \<Rightarrow> int \<Rightarrow> 'r option \<times> error option) \<Rightarrow>
   int \<Rightarrow> string \<Rightarrow> 'reg \<Rightarrow> ('l, 'r) MetricMapperCache option \<times> error option"
where
  "getCache NewMetricMapperLRUCache NewMetricMapperRRCache cacheSize cacheType registerer =
     (if cacheSize = 0 then (None, None)
      else
        let (cache, err) =
              (if cacheType = ''lru'' then
                 (case NewMetricMapperLRUCache registerer cacheSize of
                    (p, e) \<Rightarrow> (Some (LRUCache p), e))
               else if cacheType = ''random'' then
                 (case NewMetricMapperRRCache registerer cacheSize of
                    (p, e) \<Rightarrow> (Some (RRCache p), e))
               else (None, Some (UnsupportedCacheType cacheType)))
        in if err \<noteq> None then (None, err) else (cache, None))"

section \<open>Vocabulary of the properties\<close>

text \<open>The error the next call of \<open>WriteToUDP\<close> on the relay's socket returns.\<close>

definition pending_error :: "Relay \<Rightarrow> error option" where
  "pending_error r = write_errors (conn r) (length (written (conn r)))"

text \<open>The byte stream on its way downstream: written, then buffered, then queued.\<close>

definition stream :: "relayOutput_state \<Rightarrow> string" where
  "stream s = concat (written (conn (relay s))) @ buffer s @ concat (bufferChannel (relay s))"

text \<open>
  What the specification says goes downstream for one inbound line: nothing for an
  empty or too long line, else the line, closed by a newline if it has none.
\<close>

definition spec_relayed :: "uint \<Rightarrow> string \<Rightarrow> string" where
  "spec_relayed n l =
     (if l = [] \<or> length l > unat (n - 1) then []
      else if last l = CHR 0x0A then l else l @ [CHR 0x0A])"

fun relayed_by :: "uint \<Rightarrow> action \<Rightarrow> string" where
  "relayed_by n (Call_RelayLine l) = spec_relayed n l"
| "relayed_by n (Select c) = []"

section \<open>Lengths and unsigned comparisons\<close>

lemma unat_of_len: "n \<le> maxInt \<Longrightarrow> unat (of_nat n :: uint) = n"
  by (simp add: maxInt_def unat_of_nat)

lemma lineLength_zero_iff:
  assumes "length l \<le> maxInt"
  shows "((of_nat (length l) :: uint) = 0) = (l = [])"
proof -
  have "((of_nat (length l) :: uint) = 0) = (unat (of_nat (length l) :: uint) = 0)"
    by (simp only: unat_eq_0)
  also have "\<dots> = (length l = 0)"
    by (simp only: unat_of_len [OF assms])
  finally show ?thesis by simp
qed

lemma too_long_iff:
  "length l \<le> maxInt \<Longrightarrow> ((of_nat (length l) :: uint) > p) = (length l > unat p)"
  by (simp add: word_less_nat_alt unat_of_len)

lemma HasSuffix_newline: "HasSuffix l newline = (l \<noteq> [] \<and> last l = CHR 0x0A)"
  by (cases l rule: rev_cases) (auto simp: HasSuffix_def newline_def)

section \<open>RelayLine\<close>

lemma RelayLine_long:
  assumes "l \<noteq> []" "length l \<le> maxInt" "length l > unat (packetLength r - 1)"
  shows "RelayLine r l =
           (log_to r LevelWarn ''line too long, not relaying''
              [(''length'', UintV (of_nat (length l))), (''max'', UintV (packetLength r))])
           \<lparr>longLinesTotal := longLinesTotal r + 1\<rparr>"
  using assms by (simp add: RelayLine_def Let_def lineLength_zero_iff too_long_iff log_to_def)

lemma RelayLine_accept:
  assumes "l \<noteq> []" "length l \<le> maxInt" "length l \<le> unat (packetLength r - 1)"
  shows "RelayLine r l =
           (log_to r LevelDebug ''Relaying line'' [(''line'', StrV l)])
           \<lparr>relayedLinesTotal := relayedLinesTotal r + 1,
            bufferChannel := bufferChannel r @ [if HasSuffix l newline then l else l @ newline]\<rparr>"
  using assms by (simp add: RelayLine_def Let_def lineLength_zero_iff too_long_iff log_to_def)

text \<open>
  C10. \<open>RelayLine\<close> on the empty string changes nothing but the log: no counter moves,
  the channel and the socket are as before.
\<close>

theorem RelayLine_empty_noop:
  "RelayLine r [] = r\<lparr>logger := logger r @ [(LevelDebug, ''Empty line, not relaying'', [])]\<rparr> \<and>
   longLinesTotal (RelayLine r []) = longLinesTotal r \<and>
   relayedLinesTotal (RelayLine r []) = relayedLinesTotal r \<and>
   packetsTotal (RelayLine r []) = packetsTotal r \<and>
   bufferChannel (RelayLine r []) = bufferChannel r \<and>
   conn (RelayLine r []) = conn r"
  by (simp add: RelayLine_def log_to_def)

text \<open>
  C9. With a packet length of 0 the bound \<open>packetLength - 1\<close> of the too-long check wraps
  to the largest \<open>uint\<close>, so the check rejects no non-empty line: the long-lines counter
  stays and the line is enqueued.
\<close>

theorem RelayLine_zero_packetLength:
  assumes "packetLength r = 0" and "l \<noteq> []" and "length l \<le> maxInt"
  shows "unat (packetLength r - 1) = 2 ^ 64 - 1 \<and>
         \<not> (of_nat (length l) :: uint) > packetLength r - 1 \<and>
         longLinesTotal (RelayLine r l) = longLinesTotal r \<and>
         relayedLinesTotal (RelayLine r l) = relayedLinesTotal r + 1 \<and>
         bufferChannel (RelayLine r l) =
           bufferChannel r @ [if last l = CHR 0x0A then l else l @ newline]"
proof -
  have m: "unat (packetLength r - 1) = 2 ^ 64 - 1"
    using assms(1) by (simp add: unsigned_minus_1_eq_mask mask_eq_exp_minus_1)
  have le: "length l \<le> unat (packetLength r - 1)"
    using assms(3) by (simp add: m maxInt_def)
  have nl: "\<not> (of_nat (length l) :: uint) > packetLength r - 1"
    using le assms(3) by (simp add: too_long_iff)
  show ?thesis
    using m nl assms(2)
    by (simp add: RelayLine_accept [OF assms(2,3) le] HasSuffix_newline log_to_def)
qed

theorem RelayLine_zero_packetLength_witness:
  "packetLength (new_Relay ok_conn 0) = 0 \<and> ''abc'' \<noteq> [] \<and> length ''abc'' \<le> maxInt \<and>
   longLinesTotal (RelayLine (new_Relay ok_conn 0) ''abc'') = 0 \<and>
   bufferChannel (RelayLine (new_Relay ok_conn 0) ''abc'') = [''abc'' @ newline]"
proof -
  have a: "packetLength (new_Relay ok_conn 0) = 0" by (simp add: new_Relay_def)
  have b: "''abc'' \<noteq> []" by simp
  have c: "length ''abc'' \<le> maxInt" by (simp add: maxInt_def)
  show ?thesis
    using RelayLine_zero_packetLength [OF a b c] a c by (simp add: new_Relay_def)
qed

text \<open>
  For a packet length of at least 1 the too-long check is the arithmetic one: a
  non-empty line longer than the packet length less one is dropped and counted, a
  shorter one is enqueued and not counted as long.
\<close>

lemma RelayLine_admission:
  assumes "l \<noteq> []" and "length l \<le> maxInt" and "packetLength r \<noteq> 0"
  shows "(int (length l) > int (unat (packetLength r)) - 1 \<longrightarrow>
            bufferChannel (RelayLine r l) = bufferChannel r \<and>
            longLinesTotal (RelayLine r l) = longLinesTotal r + 1 \<and>
            relayedLinesTotal (RelayLine r l) = relayedLinesTotal r) \<and>
         (int (length l) \<le> int (unat (packetLength r)) - 1 \<longrightarrow>
            longLinesTotal (RelayLine r l) = longLinesTotal r \<and>
            relayedLinesTotal (RelayLine r l) = relayedLinesTotal r + 1 \<and>
            butlast (bufferChannel (RelayLine r l)) = bufferChannel r \<and>
            length (bufferChannel (RelayLine r l)) = length (bufferChannel r) + 1 \<and>
            take (length l) (last (bufferChannel (RelayLine r l))) = l)"
proof -
  have pos: "1 \<le> unat (packetLength r)"
    using assms(3) by (simp add: Suc_le_eq unat_gt_0)
  have m: "int (unat (packetLength r - 1)) = int (unat (packetLength r)) - 1"
    using pos by (simp add: unat_minus_one [OF assms(3)])
  show ?thesis
  proof (cases "length l > unat (packetLength r - 1)")
    case True
    then have "int (length l) > int (unat (packetLength r)) - 1" using m by linarith
    then show ?thesis by (simp add: RelayLine_long [OF assms(1,2) True] log_to_def)
  next
    case False
    then have le: "length l \<le> unat (packetLength r - 1)" by simp
    then have "int (length l) \<le> int (unat (packetLength r)) - 1" using m by linarith
    then show ?thesis by (simp add: RelayLine_accept [OF assms(1,2) le] log_to_def)
  qed
qed

text \<open>
  C2. A non-empty line longer than the packet length less one is to be dropped and
  counted as long. With a packet length of 0 that bound is \<open>-1\<close> and the line \<open>abc\<close> is
  longer, yet \<open>RelayLine\<close> enqueues it and leaves the long-lines counter at 0: the
  unsigned \<open>packetLength - 1\<close> of the check has wrapped to the largest \<open>uint\<close>. The
  comparison in \<open>relayOutput\<close>, which subtracts nothing, takes the same packet length
  as exceeded by every line.
\<close>

theorem RelayLine_underflow_accepts:
  "packetLength (new_Relay ok_conn 0) = 0 \<and>
   ''abc'' \<noteq> [] \<and>
   int (length ''abc'') > int (unat (packetLength (new_Relay ok_conn 0))) - 1 \<and>
   bufferChannel (RelayLine (new_Relay ok_conn 0) ''abc'') = [''abc'' @ newline] \<and>
   longLinesTotal (RelayLine (new_Relay ok_conn 0) ''abc'') = 0 \<and>
   relayedLinesTotal (RelayLine (new_Relay ok_conn 0) ''abc'') = 1"
  by (simp add: RelayLine_def new_Relay_def log_to_def HasSuffix_def newline_def Let_def)

text \<open>
  C3. For a non-empty line that is not too long, the message added to the channel is the
  line itself when it ends in a newline and the line followed by one newline
  otherwise; either way the message ends in a newline.
\<close>

theorem RelayLine_newline_terminated:
  assumes "l \<noteq> []" and "length l \<le> maxInt" and "length l \<le> unat (packetLength r - 1)"
  shows "bufferChannel (RelayLine r l) =
           bufferChannel r @ [if last l = CHR 0x0A then l else l @ [CHR 0x0A]] \<and>
         last (last (bufferChannel (RelayLine r l))) = CHR 0x0A"
proof -
  have "bufferChannel (RelayLine r l) =
          bufferChannel r @ [if last l = CHR 0x0A then l else l @ newline]"
    using assms(1) by (simp add: RelayLine_accept [OF assms] HasSuffix_newline log_to_def)
  then show ?thesis by (simp add: newline_def)
qed

theorem RelayLine_newline_terminated_witness:
  "''ab'' \<noteq> [] \<and> length ''ab'' \<le> maxInt \<and>
   length ''ab'' \<le> unat (packetLength (new_Relay ok_conn 1400) - 1) \<and>
   bufferChannel (RelayLine (new_Relay ok_conn 1400) ''ab'') = [[CHR ''a'', CHR ''b'', CHR 0x0A]] \<and>
   length [CHR ''a'', CHR 0x0A] \<le> unat (packetLength (new_Relay ok_conn 1400) - 1) \<and>
   bufferChannel (RelayLine (new_Relay ok_conn 1400) [CHR ''a'', CHR 0x0A]) = [[CHR ''a'', CHR 0x0A]]"
proof -
  have a: "''ab'' \<noteq> []" "[CHR ''a'', CHR 0x0A] \<noteq> []" by simp_all
  have b: "length ''ab'' \<le> maxInt" "length [CHR ''a'', CHR 0x0A] \<le> maxInt"
    by (simp_all add: maxInt_def)
  have c: "length ''ab'' \<le> unat (packetLength (new_Relay ok_conn 1400) - 1)"
     "length [CHR ''a'', CHR 0x0A] \<le> unat (packetLength (new_Relay ok_conn 1400) - 1)"
    by (simp_all add: new_Relay_def)
  show ?thesis
    using RelayLine_newline_terminated [OF a(1) b(1) c(1)]
          RelayLine_newline_terminated [OF a(2) b(2) c(2)] b c
    by (simp add: new_Relay_def)
qed

text \<open>Unfolding these evaluates the relay on a concrete input.\<close>

lemmas eval_defs = new_relayOutput_def new_Relay_def ok_conn_def
  relayOutput_step_def relayOutput_iter_def sendPacket_def RelayLine_def log_to_def
  send_failed_def HasSuffix_def newline_def Let_def

section \<open>sendPacket and the rounds of relayOutput\<close>

lemma sendPacket_empty:
  "sendPacket r [] = (log_to r LevelDebug ''Empty buffer, nothing to send'' [], None)"
  by (simp add: sendPacket_def)

lemma sendPacket_nonempty:
  "buf \<noteq> [] \<Longrightarrow> sendPacket r buf =
     (r\<lparr>logger := logger r @ [(LevelDebug, ''Sending packet'',
                     [(''length'', NatV (length buf)), (''data'', StrV buf)])],
        conn := (conn r)\<lparr>written := written (conn r) @ [buf]\<rparr>,
        packetsTotal := packetsTotal r + 1\<rparr>,
      pending_error r)"
  by (simp add: sendPacket_def Let_def log_to_def pending_error_def)

lemma sendPacket_err: "snd (sendPacket r buf) = (if buf = [] then None else pending_error r)"
  by (simp add: sendPacket_empty sendPacket_nonempty)

lemma sendPacket_written:
  "written (conn (fst (sendPacket r buf))) = written (conn r) @ (if buf = [] then [] else [buf])"
  by (simp add: sendPacket_empty sendPacket_nonempty log_to_def)

lemma sendPacket_frame:
  "bufferChannel (fst (sendPacket r buf)) = bufferChannel r"
  "packetLength (fst (sendPacket r buf)) = packetLength r"
  "write_errors (conn (fst (sendPacket r buf))) = write_errors (conn r)"
  "longLinesTotal (fst (sendPacket r buf)) = longLinesTotal r"
  "relayedLinesTotal (fst (sendPacket r buf)) = relayedLinesTotal r"
  "packetsTotal (fst (sendPacket r buf)) = packetsTotal r + (if buf = [] then 0 else 1)"
  by (cases "buf = []"; simp add: sendPacket_empty sendPacket_nonempty log_to_def)+

lemma log_to_simps:
  "bufferChannel (log_to r lv m a) = bufferChannel r"
  "conn (log_to r lv m a) = conn r"
  "packetLength (log_to r lv m a) = packetLength r"
  "packetsTotal (log_to r lv m a) = packetsTotal r"
  "longLinesTotal (log_to r lv m a) = longLinesTotal r"
  "relayedLinesTotal (log_to r lv m a) = relayedLinesTotal r"
  "logger (log_to r lv m a) = logger r @ [(lv, m, a)]"
  "pending_error (log_to r lv m a) = pending_error r"
  by (simp_all add: log_to_def pending_error_def)

lemma pending_error_chan: "pending_error (r\<lparr>bufferChannel := c\<rparr>) = pending_error r"
  by (simp add: pending_error_def)

lemma unat_of_nat_len: "n < 2 ^ 64 \<Longrightarrow> unat (of_nat n :: uint) = n"
  by (simp add: unat_of_nat)

lemma sum_len: "length b \<le> maxInt \<Longrightarrow> length buf \<le> maxInt \<Longrightarrow>
   ((of_nat (length b + length buf) :: uint) > p) = (length buf + length b > unat p)"
proof -
  assume "length b \<le> maxInt" "length buf \<le> maxInt"
  then have "length b + length buf < 2 ^ 64" by (simp add: maxInt_def)
  then have "unat (of_nat (length b + length buf) :: uint) = length b + length buf"
    by (simp only: unat_of_nat_len) 
  then show ?thesis by (simp only: word_less_nat_alt add.commute)
qed


lemma step_line_full:
  assumes "\<not> returned s" "bufferChannel (relay s) = b # rest"
    "(of_nat (length b + length (buffer s)) :: uint) > packetLength (relay s)"
  shows "relayOutput_step s case_bufferChannel =
     (let r1 = log_to ((relay s)\<lparr>bufferChannel := rest\<rparr>) LevelDebug ''Buffer full, sending packet''
                            [(''length'', NatV (length (buffer s)))];
          r2 = fst (sendPacket r1 (buffer s))
      in case snd (sendPacket r1 (buffer s)) of
           Some e \<Rightarrow> send_failed s r2 e
         | None \<Rightarrow> s\<lparr>relay := r2, buffer := b\<rparr>)"
  using assms
  by (simp add: relayOutput_step_def relayOutput_iter_def Let_def split: prod.splits option.splits)

lemma step_line_fits:
  assumes "\<not> returned s" "bufferChannel (relay s) = b # rest"
    "\<not> (of_nat (length b + length (buffer s)) :: uint) > packetLength (relay s)"
  shows "relayOutput_step s case_bufferChannel =
     s\<lparr>relay := log_to ((relay s)\<lparr>bufferChannel := rest\<rparr>) LevelDebug ''Adding line to buffer''
                   [(''line'', StrV b)],
       buffer := buffer s @ b\<rparr>"
  using assms
  by (simp add: relayOutput_step_def relayOutput_iter_def Let_def)

lemma step_line_empty:
  assumes "bufferChannel (relay s) = []"
  shows "relayOutput_step s case_bufferChannel = s"
  using assms by (simp add: relayOutput_step_def relayOutput_iter_def)

lemma step_tick:
  assumes "\<not> returned s"
  shows "relayOutput_step s case_relayInterval =
     (case snd (sendPacket (relay s) (buffer s)) of
        Some e \<Rightarrow> send_failed s (fst (sendPacket (relay s) (buffer s))) e
      | None \<Rightarrow> s\<lparr>relay := fst (sendPacket (relay s) (buffer s)), buffer := []\<rparr>)"
  using assms
  by (simp add: relayOutput_step_def relayOutput_iter_def split: prod.splits option.splits)

lemma send_failed_simps:
  "returned (send_failed s r e)"
  "buffer (send_failed s r e) = buffer s"
  "relay (send_failed s r e) = log_to r LevelError ''Error sending UDP packet'' [(''error'', ErrV e)]"
  by (simp_all add: send_failed_def)

text \<open>
  C1. A round of the flush loop that receives a line \<open>b\<close> hands the current buffer to
  \<open>sendPacket\<close>, as one datagram, exactly when buffer and line together are longer than
  the packet length; after a successful send the buffer is the line alone, and when
  they fit the line is appended and nothing is sent. A round taken by the tick hands
  the buffer to \<open>sendPacket\<close> and, the send done, leaves the buffer empty. An empty
  buffer is no datagram (see C8) and a failed send ends the loop (see C5).
\<close>

theorem relayOutput_flush_rule:
  assumes "\<not> returned s"
  shows "(\<forall>b rest. bufferChannel (relay s) = b # rest \<and> length b \<le> maxInt \<and>
                   length (buffer s) \<le> maxInt \<longrightarrow>
           (let s' = relayOutput_step s case_bufferChannel;
                full = (length (buffer s) + length b > unat (packetLength (relay s)))
            in bufferChannel (relay s') = rest \<and>
               written (conn (relay s')) =
                 written (conn (relay s)) @ (if full \<and> buffer s \<noteq> [] then [buffer s] else []) \<and>
               returned s' = (full \<and> buffer s \<noteq> [] \<and> pending_error (relay s) \<noteq> None) \<and>
               (\<not> returned s' \<longrightarrow> buffer s' = (if full then b else buffer s @ b)))) \<and>
         (let t = relayOutput_step s case_relayInterval
          in bufferChannel (relay t) = bufferChannel (relay s) \<and>
             written (conn (relay t)) =
               written (conn (relay s)) @ (if buffer s \<noteq> [] then [buffer s] else []) \<and>
             returned t = (buffer s \<noteq> [] \<and> pending_error (relay s) \<noteq> None) \<and>
             (\<not> returned t \<longrightarrow> buffer t = []))"
proof (intro conjI allI impI)
  fix b rest
  assume h: "bufferChannel (relay s) = b # rest \<and> length b \<le> maxInt \<and> length (buffer s) \<le> maxInt"
  then have chan: "bufferChannel (relay s) = b # rest" and lb: "length b \<le> maxInt"
    and lbuf: "length (buffer s) \<le> maxInt" by simp_all
  show "let s' = relayOutput_step s case_bufferChannel;
            full = (length (buffer s) + length b > unat (packetLength (relay s)))
        in bufferChannel (relay s') = rest \<and>
           written (conn (relay s')) =
             written (conn (relay s)) @ (if full \<and> buffer s \<noteq> [] then [buffer s] else []) \<and>
           returned s' = (full \<and> buffer s \<noteq> [] \<and> pending_error (relay s) \<noteq> None) \<and>
           (\<not> returned s' \<longrightarrow> buffer s' = (if full then b else buffer s @ b))"
  proof (cases "length (buffer s) + length b > unat (packetLength (relay s))")
    case True
    then have w: "(of_nat (length b + length (buffer s)) :: uint) > packetLength (relay s)"
      using sum_len [OF lb lbuf, of "packetLength (relay s)"] by blast
    show ?thesis
      using True assms
      by (simp add: step_line_full [OF assms chan w] Let_def sendPacket_err sendPacket_written
            sendPacket_frame log_to_simps send_failed_simps pending_error_chan
            split: option.splits)
  next
    case False
    then have w: "\<not> (of_nat (length b + length (buffer s)) :: uint) > packetLength (relay s)"
      using sum_len [OF lb lbuf, of "packetLength (relay s)"] by blast
    show ?thesis
      using False assms
      by (simp add: step_line_fits [OF assms chan w] Let_def log_to_simps)
  qed
next
  show "let t = relayOutput_step s case_relayInterval
          in bufferChannel (relay t) = bufferChannel (relay s) \<and>
             written (conn (relay t)) =
               written (conn (relay s)) @ (if buffer s \<noteq> [] then [buffer s] else []) \<and>
             returned t = (buffer s \<noteq> [] \<and> pending_error (relay s) \<noteq> None) \<and>
             (\<not> returned t \<longrightarrow> buffer t = [])"
    using assms
    by (simp add: step_tick [OF assms] Let_def sendPacket_err sendPacket_written
            sendPacket_frame log_to_simps send_failed_simps split: option.splits)
qed


theorem relayOutput_flush_rule_witness:
  "\<not> returned (relay_run (new_relayOutput ok_conn 8)
       [Call_RelayLine ''abc'', Select case_bufferChannel, Call_RelayLine ''defg'']) \<and>
   written (conn (relay (relayOutput_step (relay_run (new_relayOutput ok_conn 8)
       [Call_RelayLine ''abc'', Select case_bufferChannel, Call_RelayLine ''defg''])
       case_bufferChannel))) = [''abc'' @ newline] \<and>
   buffer (relayOutput_step (relay_run (new_relayOutput ok_conn 8)
       [Call_RelayLine ''abc'', Select case_bufferChannel, Call_RelayLine ''defg''])
       case_bufferChannel) = ''defg'' @ newline \<and>
   written (conn (relay (relayOutput_step (relay_run (new_relayOutput ok_conn 8)
       [Call_RelayLine ''abc'', Select case_bufferChannel, Call_RelayLine ''defg''])
       case_relayInterval))) = [''abc'' @ newline] \<and>
   buffer (relayOutput_step (relay_run (new_relayOutput ok_conn 8)
       [Call_RelayLine ''abc'', Select case_bufferChannel, Call_RelayLine ''defg''])
       case_relayInterval) = [] \<and>
   written (conn (relay (relayOutput_step (relay_run (new_relayOutput ok_conn 8)
       [Call_RelayLine ''ab'', Select case_bufferChannel, Call_RelayLine ''cd''])
       case_bufferChannel))) = [] \<and>
   buffer (relayOutput_step (relay_run (new_relayOutput ok_conn 8)
       [Call_RelayLine ''ab'', Select case_bufferChannel, Call_RelayLine ''cd''])
       case_bufferChannel) = ''ab'' @ newline @ ''cd'' @ newline"
proof -
  define S where "S = relay_run (new_relayOutput ok_conn 8)
       [Call_RelayLine ''abc'', Select case_bufferChannel, Call_RelayLine ''defg'']"
  define T where "T = relay_run (new_relayOutput ok_conn 8)
       [Call_RelayLine ''ab'', Select case_bufferChannel, Call_RelayLine ''cd'']"
  have rS: "\<not> returned S" and rT: "\<not> returned T"
    by (simp_all add: S_def T_def eval_defs)
  have S: "bufferChannel (relay S) = (''defg'' @ newline) # [] \<and>
           length (''defg'' @ newline) \<le> maxInt \<and> length (buffer S) \<le> maxInt"
    and bS: "buffer S = ''abc'' @ newline" and wS: "written (conn (relay S)) = []"
    and pS: "unat (packetLength (relay S)) = 8"
    by (simp_all add: S_def eval_defs maxInt_def)
  have T: "bufferChannel (relay T) = (''cd'' @ newline) # [] \<and>
           length (''cd'' @ newline) \<le> maxInt \<and> length (buffer T) \<le> maxInt"
    and bT: "buffer T = ''ab'' @ newline" and wT: "written (conn (relay T)) = []"
    and pT: "unat (packetLength (relay T)) = 8"
    by (simp_all add: T_def eval_defs maxInt_def)
  have pe: "pending_error (relay S) = None"
    by (simp add: S_def pending_error_def eval_defs)
  note fS = relayOutput_flush_rule [OF rS]
  note fT = relayOutput_flush_rule [OF rT]
  have lineS: "written (conn (relay (relayOutput_step S case_bufferChannel))) = [''abc'' @ newline] \<and>
               buffer (relayOutput_step S case_bufferChannel) = ''defg'' @ newline"
    using fS [THEN conjunct1, rule_format, OF S] by (simp add: Let_def bS wS pS pe newline_def)
  have tickS: "written (conn (relay (relayOutput_step S case_relayInterval))) = [''abc'' @ newline] \<and>
               buffer (relayOutput_step S case_relayInterval) = []"
    using fS [THEN conjunct2] by (simp add: Let_def bS wS pS pe newline_def)
  have lineT: "written (conn (relay (relayOutput_step T case_bufferChannel))) = [] \<and>
               buffer (relayOutput_step T case_bufferChannel) = ''ab'' @ newline @ ''cd'' @ newline"
    using fT [THEN conjunct1, rule_format, OF T] by (simp add: Let_def bT wT pT newline_def)
  show ?thesis using rS lineS tickS lineT unfolding S_def T_def by blast
qed

lemma RelayLine_frame:
  "conn (RelayLine r l) = conn r"
  "packetLength (RelayLine r l) = packetLength r"
  "packetsTotal (RelayLine r l) = packetsTotal r"
  by (simp_all add: RelayLine_def Let_def log_to_def)

lemma RelayLine_channel:
  "bufferChannel (RelayLine r l) = bufferChannel r \<or>
   bufferChannel (RelayLine r l) =
     bufferChannel r @ [if HasSuffix l newline then l else l @ newline]"
  by (simp add: RelayLine_def Let_def log_to_def)

lemma returned_action:
  assumes "returned s"
  shows "returned (relay_action s a) \<and> buffer (relay_action s a) = buffer s \<and>
         conn (relay (relay_action s a)) = conn (relay s) \<and>
         packetsTotal (relay (relay_action s a)) = packetsTotal (relay s) \<and>
         take (length (bufferChannel (relay s))) (bufferChannel (relay (relay_action s a))) =
           bufferChannel (relay s)"
proof (cases a)
  case (Call_RelayLine l)
  show ?thesis
    using assms RelayLine_channel [of "relay s" l]
    by (auto simp: Call_RelayLine RelayLine_frame)
next
  case (Select c)
  show ?thesis using assms by (simp add: Select relayOutput_step_def)
qed

lemma returned_run:
  "returned s \<Longrightarrow>
     returned (relay_run s as) \<and> buffer (relay_run s as) = buffer s \<and>
     conn (relay (relay_run s as)) = conn (relay s) \<and>
     packetsTotal (relay (relay_run s as)) = packetsTotal (relay s) \<and>
     take (length (bufferChannel (relay s))) (bufferChannel (relay (relay_run s as))) =
       bufferChannel (relay s)"
proof (induction as arbitrary: s)
  case Nil
  then show ?case by simp
next
  case (Cons a as)
  let ?s1 = "relay_action s a"
  have a1: "returned ?s1" "buffer ?s1 = buffer s" "conn (relay ?s1) = conn (relay s)"
    "packetsTotal (relay ?s1) = packetsTotal (relay s)"
    "take (length (bufferChannel (relay s))) (bufferChannel (relay ?s1)) = bufferChannel (relay s)"
    using returned_action [OF Cons.prems, of a] by simp_all
  have len: "length (bufferChannel (relay s)) \<le> length (bufferChannel (relay ?s1))"
    using a1(5) by (metis length_take min.cobounded1)
  note ih = Cons.IH [OF a1(1)]
  have "take (length (bufferChannel (relay s))) (bufferChannel (relay (relay_run ?s1 as))) =
        take (length (bufferChannel (relay s)))
          (take (length (bufferChannel (relay ?s1))) (bufferChannel (relay (relay_run ?s1 as))))"
    using len by (simp add: min_def)
  also have "\<dots> = bufferChannel (relay s)"
    using ih a1(5) by simp
  finally show ?case using ih a1 by simp
qed

text \<open>
  C5. When \<open>sendPacket\<close> on the current buffer returns an error, the round that sends it,
  by the tick or because the next line does not fit, logs the error and returns:
  whatever follows, the loop writes no further datagram and receives no further
  message from the channel.
\<close>

theorem relayOutput_send_error:
  assumes "\<not> returned s"
    and "snd (sendPacket (relay s) (buffer s)) = Some e"
    and "c = case_bufferChannel \<Longrightarrow>
           \<exists>b rest. bufferChannel (relay s) = b # rest \<and>
                    (of_nat (length b + length (buffer s)) :: uint) > packetLength (relay s)"
  shows "returned (relayOutput_step s c) \<and>
         last (logger (relay (relayOutput_step s c))) =
           (LevelError, ''Error sending UDP packet'', [(''error'', ErrV e)]) \<and>
         written (conn (relay (relayOutput_step s c))) = written (conn (relay s)) @ [buffer s] \<and>
         (\<forall>as. returned (relay_run (relayOutput_step s c) as) \<and>
               written (conn (relay (relay_run (relayOutput_step s c) as))) =
                 written (conn (relay (relayOutput_step s c))) \<and>
               packetsTotal (relay (relay_run (relayOutput_step s c) as)) =
                 packetsTotal (relay (relayOutput_step s c)) \<and>
               take (length (bufferChannel (relay (relayOutput_step s c))))
                    (bufferChannel (relay (relay_run (relayOutput_step s c) as))) =
                 bufferChannel (relay (relayOutput_step s c)))"
proof -
  have ne: "buffer s \<noteq> []" and pe: "pending_error (relay s) = Some e"
    using assms(2) by (simp_all add: sendPacket_err split: if_splits)
  have step: "returned (relayOutput_step s c) \<and>
         last (logger (relay (relayOutput_step s c))) =
           (LevelError, ''Error sending UDP packet'', [(''error'', ErrV e)]) \<and>
         written (conn (relay (relayOutput_step s c))) = written (conn (relay s)) @ [buffer s]"
  proof (cases c)
    case case_relayInterval
    show ?thesis
      using ne pe
      by (simp add: case_relayInterval step_tick [OF assms(1)] sendPacket_err sendPacket_written
            send_failed_simps log_to_simps)
  next
    case case_bufferChannel
    then obtain b rest where chan: "bufferChannel (relay s) = b # rest"
      and full: "(of_nat (length b + length (buffer s)) :: uint) > packetLength (relay s)"
      using assms(3) by blast
    show ?thesis
      using ne pe
      by (simp add: case_bufferChannel step_line_full [OF assms(1) chan full] Let_def
            sendPacket_err sendPacket_written send_failed_simps log_to_simps pending_error_chan)
  qed
  then have r: "returned (relayOutput_step s c)" by simp
  show ?thesis
    using step returned_run [OF r] by simp
qed

theorem relayOutput_send_error_witness:
  "\<not> returned (relay_run (new_relayOutput broken_conn 8)
       [Call_RelayLine ''abc'', Select case_bufferChannel, Call_RelayLine ''defg'']) \<and>
   returned (relayOutput_step (relay_run (new_relayOutput broken_conn 8)
       [Call_RelayLine ''abc'', Select case_bufferChannel, Call_RelayLine ''defg''])
       case_relayInterval) \<and>
   returned (relayOutput_step (relay_run (new_relayOutput broken_conn 8)
       [Call_RelayLine ''abc'', Select case_bufferChannel, Call_RelayLine ''defg''])
       case_bufferChannel) \<and>
   written (conn (relay (relay_run (relayOutput_step (relay_run (new_relayOutput broken_conn 8)
       [Call_RelayLine ''abc'', Select case_bufferChannel, Call_RelayLine ''defg''])
       case_bufferChannel)
       [Call_RelayLine ''x'', Select case_bufferChannel, Select case_relayInterval]))) =
     [''abc'' @ newline]"
proof -
  define S where "S = relay_run (new_relayOutput broken_conn 8)
       [Call_RelayLine ''abc'', Select case_bufferChannel, Call_RelayLine ''defg'']"
  have r: "\<not> returned S"
    by (simp add: S_def eval_defs broken_conn_def)
  have e: "snd (sendPacket (relay S) (buffer S)) = Some (ExternalError ''network is unreachable'')"
    by (simp add: S_def eval_defs broken_conn_def)
  have w: "written (conn (relay S)) = []" and b: "buffer S = ''abc'' @ newline"
    by (simp_all add: S_def eval_defs broken_conn_def)
  have full: "c = case_bufferChannel \<Longrightarrow>
      \<exists>b rest. bufferChannel (relay S) = b # rest \<and>
               (of_nat (length b + length (buffer S)) :: uint) > packetLength (relay S)" for c
    by (simp add: S_def eval_defs broken_conn_def)
  note tick = relayOutput_send_error [OF r e full, of case_relayInterval]
  note line = relayOutput_send_error [OF r e full, of case_bufferChannel]
  have "written (conn (relay (relay_run (relayOutput_step S case_bufferChannel)
          [Call_RelayLine ''x'', Select case_bufferChannel, Select case_relayInterval]))) =
        [''abc'' @ newline]"
  proof -
    have "written (conn (relay (relay_run (relayOutput_step S case_bufferChannel)
            [Call_RelayLine ''x'', Select case_bufferChannel, Select case_relayInterval]))) =
          written (conn (relay (relayOutput_step S case_bufferChannel)))"
      using line by blast
    also have "\<dots> = written (conn (relay S)) @ [buffer S]"
      using line by blast
    finally show ?thesis by (simp only: w b append_Nil)
  qed
  then show ?thesis using r tick line unfolding S_def by blast
qed

section \<open>The byte stream through the relay\<close>

lemma RelayLine_channel_eq:
  assumes "length l \<le> maxInt"
  shows "bufferChannel (RelayLine r l) =
           bufferChannel r @
             (if l = [] \<or> length l > unat (packetLength r - 1) then []
              else [if last l = CHR 0x0A then l else l @ newline])"
proof (cases "l = []")
  case True
  then show ?thesis by (simp add: RelayLine_def log_to_def)
next
  case ne: False
  show ?thesis
  proof (cases "length l > unat (packetLength r - 1)")
    case True
    then show ?thesis using ne by (simp add: RelayLine_long [OF ne assms True] log_to_def)
  next
    case False
    then have le: "length l \<le> unat (packetLength r - 1)" by simp
    show ?thesis
      using ne False by (simp add: RelayLine_accept [OF ne assms le] HasSuffix_newline log_to_def)
  qed
qed

lemma returned_step: "returned s \<Longrightarrow> relayOutput_step s c = s"
  by (simp add: relayOutput_step_def)

lemma action_packetLength: "packetLength (relay (relay_action s a)) = packetLength (relay s)"
proof (cases a)
  case (Call_RelayLine l)
  then show ?thesis by (simp add: RelayLine_frame)
next
  case (Select c)
  show ?thesis
  proof (cases "returned s")
    case True
    then show ?thesis by (simp add: Select returned_step)
  next
    case nr: False
    show ?thesis
    proof (cases c)
      case case_relayInterval
      then show ?thesis
        by (simp add: Select step_tick [OF nr] send_failed_simps log_to_simps sendPacket_frame
              split: option.splits)
    next
      case case_bufferChannel
      show ?thesis
      proof (cases "bufferChannel (relay s)")
        case Nil
        then show ?thesis by (simp add: Select case_bufferChannel step_line_empty)
      next
        case (Cons b rest)
        show ?thesis
        proof (cases "(of_nat (length b + length (buffer s)) :: uint) > packetLength (relay s)")
          case True
          show ?thesis
            by (simp add: Select case_bufferChannel step_line_full [OF nr Cons True] Let_def
                  send_failed_simps log_to_simps sendPacket_frame split: option.splits)
        next
          case False
          show ?thesis
            by (simp add: Select case_bufferChannel step_line_fits [OF nr Cons False] log_to_simps)
        qed
      qed
    qed
  qed
qed

lemma relay_run_Select: "relay_run s (map Select cs) = relayOutput s cs"
  by (induction cs arbitrary: s) simp_all

lemma run_packetLength: "packetLength (relay (relay_run s as)) = packetLength (relay s)"
  by (induction as arbitrary: s) (simp_all add: action_packetLength)

lemma action_stream:
  assumes "\<not> returned (relay_action s a)"
    and "\<And>l. a = Call_RelayLine l \<Longrightarrow> length l \<le> maxInt"
  shows "stream (relay_action s a) = stream s @ relayed_by (packetLength (relay s)) a"
proof (cases a)
  case (Call_RelayLine l)
  have "length l \<le> maxInt" using assms(2) Call_RelayLine by simp
  then show ?thesis
    by (simp add: Call_RelayLine stream_def RelayLine_frame RelayLine_channel_eq spec_relayed_def
          newline_def)
next
  case (Select c)
  have nr: "\<not> returned s"
    using assms(1) by (auto simp: Select returned_step)
  show ?thesis
  proof (cases c)
    case case_relayInterval
    have ok: "snd (sendPacket (relay s) (buffer s)) = None"
    proof (cases "snd (sendPacket (relay s) (buffer s))")
      case None
      then show ?thesis .
    next
      case (Some e)
      then have "returned (relay_action s a)"
        by (simp add: Select case_relayInterval step_tick [OF nr] send_failed_simps)
      then show ?thesis using assms(1) by simp
    qed
    show ?thesis
      by (simp add: Select case_relayInterval step_tick [OF nr] ok sendPacket_frame
            sendPacket_written stream_def)
  next
    case case_bufferChannel
    show ?thesis
    proof (cases "bufferChannel (relay s)")
      case Nil
      then show ?thesis by (simp add: Select case_bufferChannel step_line_empty)
    next
      case (Cons b rest)
      show ?thesis
      proof (cases "(of_nat (length b + length (buffer s)) :: uint) > packetLength (relay s)")
        case True
        let ?r1 = "log_to ((relay s)\<lparr>bufferChannel := rest\<rparr>) LevelDebug
                     ''Buffer full, sending packet'' [(''length'', NatV (length (buffer s)))]"
        have eq: "relayOutput_step s case_bufferChannel =
                    (case snd (sendPacket ?r1 (buffer s)) of
                       Some e \<Rightarrow> send_failed s (fst (sendPacket ?r1 (buffer s))) e
                     | None \<Rightarrow> s\<lparr>relay := fst (sendPacket ?r1 (buffer s)), buffer := b\<rparr>)"
          by (simp add: step_line_full [OF nr Cons True] Let_def)
        have ok: "snd (sendPacket ?r1 (buffer s)) = None"
        proof (cases "snd (sendPacket ?r1 (buffer s))")
          case None
          then show ?thesis .
        next
          case (Some e)
          then have "returned (relay_action s a)"
            by (simp add: Select case_bufferChannel eq send_failed_simps)
          then show ?thesis using assms(1) by simp
        qed
        show ?thesis
          using Cons
          by (simp add: Select case_bufferChannel eq ok log_to_simps sendPacket_frame
                sendPacket_written stream_def)
      next
        case False
        show ?thesis
          using Cons
          by (simp add: Select case_bufferChannel step_line_fits [OF nr Cons False] log_to_simps
                stream_def)
      qed
    qed
  qed
qed

lemma returned_run_stays: "returned s \<Longrightarrow> returned (relay_run s as)"
  using returned_run by blast

lemma run_stream:
  assumes "\<not> returned (relay_run s as)"
    and "\<forall>l. Call_RelayLine l \<in> set as \<longrightarrow> length l \<le> maxInt"
  shows "stream (relay_run s as) =
           stream s @ concat (map (relayed_by (packetLength (relay s))) as)"
  using assms
proof (induction as arbitrary: s)
  case Nil
  then show ?case by simp
next
  case (Cons a as)
  have nr1: "\<not> returned (relay_action s a)"
    using Cons.prems(1) returned_run_stays [of "relay_action s a" as] by auto
  have st: "stream (relay_action s a) = stream s @ relayed_by (packetLength (relay s)) a"
    using Cons.prems(2) by (intro action_stream [OF nr1]) simp
  have "stream (relay_run (relay_action s a) as) =
          stream (relay_action s a) @
            concat (map (relayed_by (packetLength (relay (relay_action s a)))) as)"
    using Cons.prems by (intro Cons.IH) simp_all
  then show ?case by (simp add: st action_packetLength)
qed

text \<open>
  C4 (amended). The relay changes an accepted line in one way only: it closes it with a
  newline when it has none. While no send has failed, the stream downstream grows by
  exactly the accepted lines, so closed, in the order of the calls.
\<close>

theorem relay_stream_preserved:
  assumes "\<not> returned (relay_run s as)"
    and "\<forall>l. Call_RelayLine l \<in> set as \<longrightarrow> length l \<le> maxInt"
  shows "stream (relay_run s as) =
           stream s @ concat (map (relayed_by (packetLength (relay s))) as) \<and>
         stream (relay_run s as) =
           concat (written (conn (relay (relay_run s as)))) @ buffer (relay_run s as) @
           concat (bufferChannel (relay (relay_run s as)))"
  using run_stream [OF assms] by (simp add: stream_def)

theorem relay_stream_preserved_witness:
  "\<not> returned (relay_run (new_relayOutput ok_conn 1400)
       [Call_RelayLine ''a'', Call_RelayLine [CHR ''b'', CHR 0x0A], Call_RelayLine [],
        Select case_bufferChannel, Select case_bufferChannel, Select case_relayInterval]) \<and>
   stream (relay_run (new_relayOutput ok_conn 1400)
       [Call_RelayLine ''a'', Call_RelayLine [CHR ''b'', CHR 0x0A], Call_RelayLine [],
        Select case_bufferChannel, Select case_bufferChannel, Select case_relayInterval]) =
     [CHR ''a'', CHR 0x0A, CHR ''b'', CHR 0x0A] \<and>
   written (conn (relay (relay_run (new_relayOutput ok_conn 1400)
       [Call_RelayLine ''a'', Call_RelayLine [CHR ''b'', CHR 0x0A], Call_RelayLine [],
        Select case_bufferChannel, Select case_bufferChannel, Select case_relayInterval]))) =
     [[CHR ''a'', CHR 0x0A, CHR ''b'', CHR 0x0A]]"
proof -
  define s where "s = new_relayOutput ok_conn 1400"
  define as where "as = [Call_RelayLine ''a'', Call_RelayLine [CHR ''b'', CHR 0x0A], Call_RelayLine [],
        Select case_bufferChannel, Select case_bufferChannel, Select case_relayInterval]"
  have r: "\<not> returned (relay_run s as)"
    by (simp add: s_def as_def eval_defs)
  have h: "\<forall>l. Call_RelayLine l \<in> set as \<longrightarrow> length l \<le> maxInt"
    by (auto simp: as_def maxInt_def)
  have s0: "stream s = []" and p: "packetLength (relay s) = 1400"
    by (simp_all add: s_def stream_def eval_defs)
  have m: "concat (map (relayed_by 1400) as) = [CHR ''a'', CHR 0x0A, CHR ''b'', CHR 0x0A]"
    by (simp add: as_def spec_relayed_def)
  have st: "stream (relay_run s as) = [CHR ''a'', CHR 0x0A, CHR ''b'', CHR 0x0A]"
    using relay_stream_preserved [OF r h] by (simp add: s0 p m)
  have w: "written (conn (relay (relay_run s as))) = [[CHR ''a'', CHR 0x0A, CHR ''b'', CHR 0x0A]]"
    by (simp add: s_def as_def eval_defs)
  show ?thesis using r st w unfolding s_def as_def by blast
qed

text \<open>
  C4 as first stated, with no change of any kind to the bytes, fails: the line \<open>a\<close>,
  relayed through a fresh relay and flushed by the tick, goes out as the two bytes
  \<open>a\<close> and newline.
\<close>

theorem relay_appends_newline:
  "written (conn (relay (relay_run (new_relayOutput ok_conn 1400)
      [Call_RelayLine ''a'', Select case_bufferChannel, Select case_relayInterval]))) =
     [[CHR ''a'', CHR 0x0A]] \<and>
   written (conn (relay (relay_run (new_relayOutput ok_conn 1400)
      [Call_RelayLine ''a'', Select case_bufferChannel, Select case_relayInterval]))) \<noteq> [''a'']"
  by (simp add: eval_defs)

section \<open>Datagram sizes\<close>

lemma action_bounded:
  assumes pl1: "1 \<le> unat (packetLength (relay s))"
    and plm: "unat (packetLength (relay s)) \<le> maxInt"
    and buf: "length (buffer s) \<le> unat (packetLength (relay s))"
    and chan: "\<forall>b\<in>set (bufferChannel (relay s)). length b \<le> unat (packetLength (relay s))"
    and arg: "\<And>l. a = Call_RelayLine l \<Longrightarrow> length l \<le> maxInt"
  shows "length (buffer (relay_action s a)) \<le> unat (packetLength (relay s)) \<and>
         (\<forall>b\<in>set (bufferChannel (relay (relay_action s a))).
            length b \<le> unat (packetLength (relay s))) \<and>
         (\<exists>ds. written (conn (relay (relay_action s a))) = written (conn (relay s)) @ ds \<and>
               (\<forall>d\<in>set ds. d \<noteq> [] \<and> length d \<le> unat (packetLength (relay s))))"
proof (cases a)
  case (Call_RelayLine l)
  have ll: "length l \<le> maxInt" using arg Call_RelayLine by simp
  have nz: "packetLength (relay s) \<noteq> 0" using pl1 by auto
  have m1: "unat (packetLength (relay s) - 1) = unat (packetLength (relay s)) - 1"
    by (rule unat_minus_one [OF nz])
  show ?thesis
    using buf chan pl1
    by (auto simp: Call_RelayLine RelayLine_frame RelayLine_channel_eq [OF ll] m1 newline_def)
next
  case (Select c)
  show ?thesis
  proof (cases "returned s")
    case True
    then show ?thesis using buf chan by (simp add: Select returned_step)
  next
    case nr: False
    show ?thesis
    proof (cases c)
      case case_relayInterval
      show ?thesis
        using buf chan
        by (simp add: Select case_relayInterval step_tick [OF nr] send_failed_simps log_to_simps
              sendPacket_frame sendPacket_written split: option.splits)
    next
      case case_bufferChannel
      show ?thesis
      proof (cases "bufferChannel (relay s)")
        case Nil
        then show ?thesis using buf chan by (simp add: Select case_bufferChannel step_line_empty)
      next
        case (Cons b rest)
        have lb: "length b \<le> unat (packetLength (relay s))"
          and lrest: "\<forall>b\<in>set rest. length b \<le> unat (packetLength (relay s))"
          using chan Cons by simp_all
        have lbm: "length b \<le> maxInt" and lbufm: "length (buffer s) \<le> maxInt"
          using lb buf plm by simp_all
        show ?thesis
        proof (cases "(of_nat (length b + length (buffer s)) :: uint) > packetLength (relay s)")
          case True
          show ?thesis
            using buf lb lrest
            by (simp add: Select case_bufferChannel step_line_full [OF nr Cons True] Let_def
                  send_failed_simps log_to_simps sendPacket_frame sendPacket_written
                  split: option.splits)
        next
          case False
          then have "length (buffer s) + length b \<le> unat (packetLength (relay s))"
            using sum_len [OF lbm lbufm, of "packetLength (relay s)"] by simp
          then show ?thesis
            using lrest
            by (simp add: Select case_bufferChannel step_line_fits [OF nr Cons False] log_to_simps)
        qed
      qed
    qed
  qed
qed

lemma run_bounded:
  assumes "1 \<le> unat (packetLength (relay s))"
    and "unat (packetLength (relay s)) \<le> maxInt"
    and "length (buffer s) \<le> unat (packetLength (relay s))"
    and "\<forall>b\<in>set (bufferChannel (relay s)). length b \<le> unat (packetLength (relay s))"
    and "\<forall>l. Call_RelayLine l \<in> set as \<longrightarrow> length l \<le> maxInt"
  shows "\<exists>ds. written (conn (relay (relay_run s as))) = written (conn (relay s)) @ ds \<and>
              (\<forall>d\<in>set ds. d \<noteq> [] \<and> length d \<le> unat (packetLength (relay s)))"
  using assms
proof (induction as arbitrary: s)
  case Nil
  then show ?case by simp
next
  case (Cons a as)
  let ?s1 = "relay_action s a"
  have arg: "\<And>l. a = Call_RelayLine l \<Longrightarrow> length l \<le> maxInt"
    using Cons.prems(5) by simp
  note ab = action_bounded [OF Cons.prems(1-4) arg]
  have pl: "packetLength (relay ?s1) = packetLength (relay s)"
    by (rule action_packetLength)
  obtain ds1 where w1: "written (conn (relay ?s1)) = written (conn (relay s)) @ ds1"
    and g1: "\<forall>d\<in>set ds1. d \<noteq> [] \<and> length d \<le> unat (packetLength (relay s))"
    using ab by blast
  have "\<exists>ds. written (conn (relay (relay_run ?s1 as))) = written (conn (relay ?s1)) @ ds \<and>
              (\<forall>d\<in>set ds. d \<noteq> [] \<and> length d \<le> unat (packetLength (relay ?s1)))"
    using Cons.prems ab by (intro Cons.IH) (simp_all add: pl)
  then obtain ds2 where w2: "written (conn (relay (relay_run ?s1 as))) = written (conn (relay ?s1)) @ ds2"
    and g2: "\<forall>d\<in>set ds2. d \<noteq> [] \<and> length d \<le> unat (packetLength (relay s))"
    by (auto simp: pl)
  have "written (conn (relay (relay_run s (a # as)))) = written (conn (relay s)) @ (ds1 @ ds2)"
    by (simp add: w1 w2)
  moreover have "\<forall>d\<in>set (ds1 @ ds2). d \<noteq> [] \<and> length d \<le> unat (packetLength (relay s))"
    using g1 g2 by auto
  ultimately show ?case by blast
qed

text \<open>
  C8. With a packet length of at least 1 (and within the range of a Go length), a
  buffer and queued messages no longer than the packet length, every datagram the
  relay writes from then on, whatever the calls of \<open>RelayLine\<close> and the rounds of the
  loop, is non-empty and at most the packet length long; \<open>sendPacket\<close> on an empty
  buffer writes nothing.
\<close>

theorem relay_datagrams_bounded:
  assumes "1 \<le> unat (packetLength (relay s))"
    and "unat (packetLength (relay s)) \<le> maxInt"
    and "length (buffer s) \<le> unat (packetLength (relay s))"
    and "\<forall>b\<in>set (bufferChannel (relay s)). length b \<le> unat (packetLength (relay s))"
    and "\<forall>l. Call_RelayLine l \<in> set as \<longrightarrow> length l \<le> maxInt"
  shows "(\<forall>d \<in> set (drop (length (written (conn (relay s))))
                        (written (conn (relay (relay_run s as))))).
            d \<noteq> [] \<and> length d \<le> unat (packetLength (relay s))) \<and>
         take (length (written (conn (relay s)))) (written (conn (relay (relay_run s as)))) =
           written (conn (relay s)) \<and>
         written (conn (fst (sendPacket r []))) = written (conn r)"
proof -
  obtain ds where "written (conn (relay (relay_run s as))) = written (conn (relay s)) @ ds"
    and "\<forall>d\<in>set ds. d \<noteq> [] \<and> length d \<le> unat (packetLength (relay s))"
    using run_bounded [OF assms] by blast
  then show ?thesis by (simp add: sendPacket_written)
qed

theorem relay_datagrams_bounded_witness:
  "written (conn (relay (relay_run (new_relayOutput ok_conn 8)
     [Call_RelayLine ''abc'', Select case_bufferChannel, Call_RelayLine ''defg'',
      Select case_relayInterval, Select case_bufferChannel,
      Call_RelayLine ''too long a line'', Select case_relayInterval]))) =
     [''abc'' @ newline, ''defg'' @ newline] \<and>
   list_all (\<lambda>d. d \<noteq> [] \<and> length d \<le> 8)
     (written (conn (relay (relay_run (new_relayOutput ok_conn 8)
     [Call_RelayLine ''abc'', Select case_bufferChannel, Call_RelayLine ''defg'',
      Select case_relayInterval, Select case_bufferChannel,
      Call_RelayLine ''too long a line'', Select case_relayInterval]))))"
proof -
  define s where "s = new_relayOutput ok_conn 8"
  define as where "as = [Call_RelayLine ''abc'', Select case_bufferChannel, Call_RelayLine ''defg'',
      Select case_relayInterval, Select case_bufferChannel,
      Call_RelayLine ''too long a line'', Select case_relayInterval]"
  have p: "unat (packetLength (relay s)) = 8"
    by (simp add: s_def eval_defs)
  have h1: "1 \<le> unat (packetLength (relay s))"
    and h2: "unat (packetLength (relay s)) \<le> maxInt"
    and h3: "length (buffer s) \<le> unat (packetLength (relay s))"
    and h4: "\<forall>b\<in>set (bufferChannel (relay s)). length b \<le> unat (packetLength (relay s))"
    by (simp_all add: s_def eval_defs maxInt_def)
  have h5: "\<forall>l. Call_RelayLine l \<in> set as \<longrightarrow> length l \<le> maxInt"
    by (auto simp: as_def maxInt_def)
  have w0: "written (conn (relay s)) = []"
    by (simp add: s_def eval_defs)
  have run: "written (conn (relay (relay_run s as))) = [''abc'' @ newline, ''defg'' @ newline]"
    by (simp add: s_def as_def eval_defs)
  have "list_all (\<lambda>d. d \<noteq> [] \<and> length d \<le> 8) (written (conn (relay (relay_run s as))))"
    using relay_datagrams_bounded [OF h1 h2 h3 h4 h5] by (simp add: w0 p list_all_iff)
  then show ?thesis using run unfolding s_def as_def by blast
qed

section \<open>reloadConfig and getCache\<close>

text \<open>
  C6. \<open>reloadConfig\<close> adds one to the config-reloads counter labelled \<open>failure\<close> when
  loading the mapping file returned an error and to the one labelled \<open>success\<close>
  otherwise, leaves every other counter as the load left it, and logs the outcome.
\<close>

theorem reloadConfig_counts_outcome:
  assumes "InitFromFile fileName s = (s1, err)"
  shows "(let outcome = (if err = None then ''success'' else ''failure'');
              s' = reloadConfig InitFromFile fileName s
          in counters s' (configLoads, [outcome]) = counters s1 (configLoads, [outcome]) + 1 \<and>
             (\<forall>k. k \<noteq> (configLoads, [outcome]) \<longrightarrow> counters s' k = counters s1 k) \<and>
             main_logger s' = main_logger s1 @
               [(LevelInfo,
                 if err = None then ''Config reloaded successfully'' else ''Error reloading config'',
                 case err of None \<Rightarrow> [] | Some e \<Rightarrow> [(''error'', ErrV e)])] \<and>
             mapper s' = mapper s1)"
  using assms by (cases err) (simp_all add: reloadConfig_def Inc_def Let_def)

theorem reloadConfig_counts_outcome_witness:
  "counters (reloadConfig (\<lambda>f s. (s, Some (ExternalError ''no such file''))) ''statsd.yml''
      \<lparr>counters = (\<lambda>k. 0), mapper = (), main_logger = []\<rparr>) (configLoads, [''failure'']) = 1 \<and>
   counters (reloadConfig (\<lambda>f s. (s, Some (ExternalError ''no such file''))) ''statsd.yml''
      \<lparr>counters = (\<lambda>k. 0), mapper = (), main_logger = []\<rparr>) (configLoads, [''success'']) = 0 \<and>
   counters (reloadConfig (\<lambda>f s. (s, None)) ''statsd.yml''
      \<lparr>counters = (\<lambda>k. 0), mapper = (), main_logger = []\<rparr>) (configLoads, [''success'']) = 1 \<and>
   counters (reloadConfig (\<lambda>f s. (s, None)) ''statsd.yml''
      \<lparr>counters = (\<lambda>k. 0), mapper = (), main_logger = []\<rparr>) (configLoads, [''failure'']) = 0"
proof -
  let ?s = "\<lparr>counters = (\<lambda>k. 0), mapper = (), main_logger = []\<rparr>"
  let ?bad = "\<lambda>(f::string) (s::unit process). (s, Some (ExternalError ''no such file''))"
  let ?good = "\<lambda>(f::string) (s::unit process). (s, None :: error option)"
  have k: "(configLoads, [''success'']) \<noteq> (configLoads, [''failure''])"
     "(configLoads, [''failure'']) \<noteq> (configLoads, [''success''])" by simp_all
  show ?thesis
    using reloadConfig_counts_outcome
            [of ?bad "''statsd.yml''" ?s ?s "Some (ExternalError ''no such file'')"]
          reloadConfig_counts_outcome [of ?good "''statsd.yml''" ?s ?s None] k
    by (simp add: Let_def)
qed

text \<open>
  C7. \<open>getCache\<close> returns no cache and no error for size 0 whatever the type; for another
  size it returns what the LRU constructor built for type \<open>lru\<close> and what the
  random-replacement constructor built for type \<open>random\<close> (or that constructor's error
  and no cache), and for any other type an error and no cache.
\<close>

theorem getCache_dispatch:
  "(cacheSize = 0 \<longrightarrow> getCache L R cacheSize cacheType reg = (None, None)) \<and>
   (cacheSize \<noteq> 0 \<and> cacheType = ''lru'' \<longrightarrow>
      getCache L R cacheSize cacheType reg =
        (case L reg cacheSize of
           (p, None) \<Rightarrow> (Some (LRUCache p), None)
         | (p, Some e) \<Rightarrow> (None, Some e))) \<and>
   (cacheSize \<noteq> 0 \<and> cacheType = ''random'' \<longrightarrow>
      getCache L R cacheSize cacheType reg =
        (case R reg cacheSize of
           (p, None) \<Rightarrow> (Some (RRCache p), None)
         | (p, Some e) \<Rightarrow> (None, Some e))) \<and>
   (cacheSize \<noteq> 0 \<and> cacheType \<noteq> ''lru'' \<and> cacheType \<noteq> ''random'' \<longrightarrow>
      getCache L R cacheSize cacheType reg = (None, Some (UnsupportedCacheType cacheType)))"
  by (auto simp: getCache_def split: prod.splits option.splits)

theorem getCache_dispatch_witness:
  "getCache (\<lambda>reg n. (Some n, None)) (\<lambda>reg n. (Some (- n), None)) 0 ''lru'' () = (None, None) \<and>
   getCache (\<lambda>reg n. (Some n, None)) (\<lambda>reg n. (Some (- n), None)) 0 ''fifo'' () = (None, None) \<and>
   getCache (\<lambda>reg n. (Some n, None)) (\<lambda>reg n. (Some (- n), None)) 1000 ''lru'' () =
     (Some (LRUCache (Some 1000)), None) \<and>
   getCache (\<lambda>reg n. (Some n, None)) (\<lambda>reg n. (Some (- n), None)) 1000 ''random'' () =
     (Some (RRCache (Some (- 1000))), None) \<and>
   getCache (\<lambda>reg n. (Some n, None)) (\<lambda>reg n. (Some (- n), None)) 1000 ''fifo'' () =
     (None, Some (UnsupportedCacheType ''fifo''))"
proof -
  let ?L = "\<lambda>(reg::unit) (n::int). (Some n, None :: error option)"
  let ?R = "\<lambda>(reg::unit) (n::int). (Some (- n), None :: error option)"
  show ?thesis
    using getCache_dispatch [of 0 ?L ?R "''lru''" "()"]
          getCache_dispatch [of 0 ?L ?R "''fifo''" "()"]
          getCache_dispatch [of 1000 ?L ?R "''lru''" "()"]
          getCache_dispatch [of 1000 ?L ?R "''random''" "()"]
          getCache_dispatch [of 1000 ?L ?R "''fifo''" "()"]
    by simp
qed

end
